theory Spec2Isabelle
  imports Main "HOL-Library.Word" "HOL-Library.Char_ord" "HOL-Library.Monad_Syntax"
begin

section \<open>The lexical analyser of \<open>LA.cpp\<close>\<close>

text \<open>
  A shallow embedding of \<open>lexicalAnalysis\<close> and of the helpers it calls.

  \<^item> A \<open>std::string\<close> is a \<open>string\<close> (a list of 8-bit characters); \<open>length\<close> is
    \<open>sourceCode.length()\<close>.
  \<^item> A \<open>Token\<close> is the struct of the source: two strings, the type and the value.
  \<^item> The cursor \<open>int current_index\<close> (line 51) is a 32-bit word read as a signed number
    (\<open>sint\<close>), \<open>int\<close> being 32 bits wide on the usual platforms. \<open>current_index++\<close>,
    \<open>current_index + 1\<close> and \<open>current_index += 2\<close> are additions on that word. Signed
    overflow is undefined in C++; the model gives it the two's-complement wrap-around
    that compilers for these platforms produce, so the successor of \<open>2147483647\<close> is
    \<open>- 2147483648\<close>.
  \<^item> In \<open>current_index < sourceCode.length()\<close> the cursor is converted to the unsigned
    type of the length. A negative cursor becomes a number above the length of every
    \<open>std::string\<close>, so the comparison holds exactly when the cursor is not negative and
    below the length (\<open>less_length\<close>). The same conversion takes place in
    \<open>sourceCode[current_index]\<close>.
  \<^item> \<open>sourceCode[i]\<close> is the partial read \<open>at\<close>: \<open>None\<close> stands for a read outside
    \<open>0 ..< length\<close>, so a result \<open>Some _\<close> of the analyser says that no such read
    was made on the way. (The index \<open>length\<close> itself counts as outside: the source
    never reads the terminating NUL that \<open>operator[]\<close> would return there.)
  \<^item> The three \<open>while\<close> loops are recursive functions on the cursor, each with its
    termination proof.
\<close>

subsection \<open>Tokens\<close>

record Token =
  type :: string
  "value" :: string

subsection \<open>Character classes\<close>

text \<open>
  The comparisons of \<open>isLetter\<close> and \<open>isDigit\<close> are between \<open>char\<close> values. Both bounds
  of each range are ASCII, so a byte above 127 is outside every range whether \<open>char\<close> is
  signed or not; the order on \<open>char\<close> used here is the unsigned one.
\<close>

definition isLetter :: "char \<Rightarrow> bool" where
  "isLetter c = ((CHR ''a'' \<le> c \<and> c \<le> CHR ''z'') \<or> (CHR ''A'' \<le> c \<and> c \<le> CHR ''Z''))"

definition isDigit :: "char \<Rightarrow> bool" where
  "isDigit c = (CHR ''0'' \<le> c \<and> c \<le> CHR ''9'')"

definition isWhitespace :: "char \<Rightarrow> bool" where
  "isWhitespace c = (c = CHR '' '' \<or> c = CHR 0x09 \<or> c = CHR 0x0A \<or> c = CHR 0x0D)"

definition KEYWORDS :: "string set" where
  "KEYWORDS = {''int'', ''float'', ''if'', ''else'', ''while'', ''return'', ''void''}"

definition isKeyword :: "string \<Rightarrow> bool" where
  "isKeyword lexeme = (lexeme \<in> KEYWORDS)"

definition SINGLE_CHAR_TOKENS :: "char set" where
  "SINGLE_CHAR_TOKENS =
     {CHR ''+'', CHR ''-'', CHR ''*'', CHR ''/'', CHR ''='', CHR ''>'', CHR ''<'',
      CHR '';'', CHR ''('', CHR '')'', CHR ''{'', CHR ''}''}"

subsection \<open>The cursor and the source string\<close>

text \<open>\<open>i < sourceCode.length()\<close> for an \<open>int\<close> \<open>i\<close>.\<close>

definition less_length :: "32 word \<Rightarrow> string \<Rightarrow> bool" where
  "less_length i sourceCode = (0 \<le> sint i \<and> nat (sint i) < length sourceCode)"

text \<open>\<open>sourceCode[i]\<close> for an \<open>int\<close> \<open>i\<close>.\<close>

definition at :: "string \<Rightarrow> 32 word \<Rightarrow> char option" where
  "at sourceCode i =
     (if 0 \<le> sint i \<and> nat (sint i) < length sourceCode then Some (sourceCode ! nat (sint i))
      else None)"

text \<open>
  A cursor that is not negative is below \<open>2^31\<close> as an unsigned number, and its
  successor does not wrap as an unsigned number.
\<close>

lemma signed_take_bit_small:
  "0 \<le> k \<Longrightarrow> k < 2147483648 \<Longrightarrow> signed_take_bit 31 (k :: int) = k"
  by (simp add: signed_take_bit_int_eq_self)

lemma signed_take_bit_big:
  assumes "2147483648 \<le> k" "k < 4294967296"
  shows "signed_take_bit 31 (k :: int) = k - 4294967296"
proof -
  have "k + 2147483648 = (k - 2147483648) + 4294967296" by simp
  then have "(k + 2147483648) mod 4294967296 = (k - 2147483648) mod 4294967296"
    by (simp only: mod_add_self2)
  also have "\<dots> = k - 2147483648"
    using assms by (intro mod_pos_pos_trivial) simp_all
  finally show ?thesis
    by (simp add: signed_take_bit_eq_take_bit_shift take_bit_eq_mod)
qed

lemma uint_less_32: "uint (w :: 32 word) < 4294967296"
  using uint_bounded [of w] by simp

lemma sint_small: "uint (w :: 32 word) < 2147483648 \<Longrightarrow> sint w = uint w"
  by (simp add: sint_uint signed_take_bit_small)

lemma sint_big: "2147483648 \<le> uint (w :: 32 word) \<Longrightarrow> sint w = uint w - 4294967296"
  using uint_less_32 [of w] by (simp add: sint_uint signed_take_bit_big)

lemma uint_unat_32: "uint (w :: 32 word) = int (unat w)"
  by simp

lemma sint_nonneg_iff: "0 \<le> sint (w :: 32 word) \<longleftrightarrow> unat w < 2147483648"
proof (cases "uint w < 2147483648")
  case True
  have "0 \<le> sint w" using sint_small [OF True] by simp
  moreover have "unat w < 2147483648" using True unfolding uint_unat_32 by linarith
  ultimately show ?thesis by simp
next
  case False
  then have b: "2147483648 \<le> uint w" by simp
  have "sint w < 0" using sint_big [OF b] uint_less_32 [of w] by linarith
  moreover have "\<not> unat w < 2147483648" using b unfolding uint_unat_32 by linarith
  ultimately show ?thesis by simp
qed

lemma sint_nonneg_unat: "0 \<le> sint (w :: 32 word) \<Longrightarrow> nat (sint w) = unat w"
proof -
  assume "0 \<le> sint w"
  then have "unat w < 2147483648" by (simp add: sint_nonneg_iff)
  then have "uint w < 2147483648" unfolding uint_unat_32 by linarith
  from sint_small [OF this] show ?thesis unfolding uint_unat_32 by simp
qed

lemma less_length_unat:
  "less_length i s \<longleftrightarrow> unat i < 2147483648 \<and> unat i < length s"
  using sint_nonneg_unat [of i] by (auto simp: less_length_def sint_nonneg_iff)

lemma unat_succ: "unat (w :: 32 word) < 2147483648 \<Longrightarrow> unat (w + 1) = unat w + 1"
  using unat_add_lem [of w 1] by simp

lemma at_less_length: "less_length i s \<Longrightarrow> at s i = Some (s ! unat i)"
  using sint_nonneg_unat [of i] by (simp add: at_def less_length_def)

lemma at_not_less_length: "\<not> less_length i s \<Longrightarrow> at s i = None"
  by (simp add: at_def less_length_def)

subsection \<open>The accumulation loops\<close>

text \<open>
  Lines 70 to 73: \<open>while (current_index < sourceCode.length() && (isLetter(sourceCode[current_index])
  || isDigit(sourceCode[current_index])))\<close>, appending the character and advancing. The
  result is the cursor and the lexeme after the loop.
\<close>

function ident_loop :: "string \<Rightarrow> 32 word \<Rightarrow> string \<Rightarrow> (32 word \<times> string) option" where
  "ident_loop sourceCode current_index current_lexeme =
     (if less_length current_index sourceCode then
        do {
          c \<leftarrow> at sourceCode current_index;
          if isLetter c \<or> isDigit c then
            do {
              d \<leftarrow> at sourceCode current_index;
              ident_loop sourceCode (current_index + 1) (current_lexeme @ [d])
            }
          else Some (current_index, current_lexeme)
        }
      else Some (current_index, current_lexeme))"
  by pat_completeness auto
termination
  by (relation "measure (\<lambda>(s, i, l). length s - unat i)")
    (auto simp: less_length_unat unat_succ)

text \<open>Lines 91 to 94: the same loop with \<open>isDigit\<close> alone.\<close>

function digit_loop :: "string \<Rightarrow> 32 word \<Rightarrow> string \<Rightarrow> (32 word \<times> string) option" where
  "digit_loop sourceCode current_index current_lexeme =
     (if less_length current_index sourceCode then
        do {
          c \<leftarrow> at sourceCode current_index;
          if isDigit c then
            do {
              d \<leftarrow> at sourceCode current_index;
              digit_loop sourceCode (current_index + 1) (current_lexeme @ [d])
            }
          else Some (current_index, current_lexeme)
        }
      else Some (current_index, current_lexeme))"
  by pat_completeness auto
termination
  by (relation "measure (\<lambda>(s, i, l). length s - unat i)")
    (auto simp: less_length_unat unat_succ)

lemma ident_loop_mono:
  "ident_loop s i l = Some (j, l') \<Longrightarrow> unat i \<le> unat j"
proof (induction s i l rule: ident_loop.induct)
  case (1 s i l)
  show ?case
  proof (cases "less_length i s \<and> (isLetter (s ! unat i) \<or> isDigit (s ! unat i))")
    case True
    with "1.prems" have "ident_loop s (i + 1) (l @ [s ! unat i]) = Some (j, l')"
      by (simp add: at_less_length)
    with "1.IH" [of "s ! unat i" "s ! unat i"] True have "unat (i + 1) \<le> unat j"
      by (simp add: at_less_length)
    with True show ?thesis by (simp add: less_length_unat unat_succ)
  next
    case False
    with "1.prems" show ?thesis
      by (auto simp: at_less_length split: if_splits)
  qed
qed

lemma digit_loop_mono:
  "digit_loop s i l = Some (j, l') \<Longrightarrow> unat i \<le> unat j"
proof (induction s i l rule: digit_loop.induct)
  case (1 s i l)
  show ?case
  proof (cases "less_length i s \<and> isDigit (s ! unat i)")
    case True
    with "1.prems" have "digit_loop s (i + 1) (l @ [s ! unat i]) = Some (j, l')"
      by (simp add: at_less_length)
    with "1.IH" [of "s ! unat i" "s ! unat i"] True have "unat (i + 1) \<le> unat j"
      by (simp add: at_less_length)
    with True show ?thesis by (simp add: less_length_unat unat_succ)
  next
    case False
    with "1.prems" show ?thesis
      by (auto simp: at_less_length split: if_splits)
  qed
qed

subsection \<open>The main loop\<close>

text \<open>
  Lines 53 to 131. The state of the loop is the cursor and the tokens pushed so far; the
  loop returns both when the test of line 53 fails. The branches are those of the source,
  in its order.
\<close>

function lex_loop :: "string \<Rightarrow> 32 word \<Rightarrow> Token list \<Rightarrow> (32 word \<times> Token list) option" where
  "lex_loop sourceCode current_index tokens =
     (if less_length current_index sourceCode then
        do {
          current_char \<leftarrow> at sourceCode current_index;
          if isWhitespace current_char then
            lex_loop sourceCode (current_index + 1) tokens
          else if isLetter current_char then
            do {
              (j, current_lexeme) \<leftarrow> ident_loop sourceCode (current_index + 1) [current_char];
              if isKeyword current_lexeme then
                lex_loop sourceCode j (tokens @ [\<lparr>type = ''KEYWORD'', value = current_lexeme\<rparr>])
              else
                lex_loop sourceCode j (tokens @ [\<lparr>type = ''IDENTIFIER'', value = current_lexeme\<rparr>])
            }
          else if isDigit current_char then
            do {
              (j, current_lexeme) \<leftarrow> digit_loop sourceCode (current_index + 1) [current_char];
              lex_loop sourceCode j (tokens @ [\<lparr>type = ''INTEGER'', value = current_lexeme\<rparr>])
            }
          else if current_char \<in> SINGLE_CHAR_TOKENS then
            do {
              lookahead \<leftarrow>
                (if (current_char = CHR ''='' \<or> current_char = CHR ''<'' \<or> current_char = CHR ''>'')
                    \<and> less_length (current_index + 1) sourceCode
                 then do { d \<leftarrow> at sourceCode (current_index + 1); Some (d = CHR ''='') }
                 else Some False);
              if lookahead then
                do {
                  d \<leftarrow> at sourceCode (current_index + 1);
                  lex_loop sourceCode (current_index + 2)
                    (tokens @ [\<lparr>type = ''RELATIONAL_OPERATOR'', value = [current_char] @ [d]\<rparr>])
                }
              else if current_char = CHR ''+'' \<or> current_char = CHR ''-'' \<or> current_char = CHR ''*'' then
                lex_loop sourceCode (current_index + 1)
                  (tokens @ [\<lparr>type = ''ARITHMETIC_OPERATOR'', value = [current_char]\<rparr>])
              else if current_char = CHR ''='' \<and> length [current_char] = 1 then
                lex_loop sourceCode (current_index + 1)
                  (tokens @ [\<lparr>type = ''ASSIGNMENT_OPERATOR'', value = [current_char]\<rparr>])
              else
                lex_loop sourceCode (current_index + 1)
                  (tokens @ [\<lparr>type = ''DELIMITER'', value = [current_char]\<rparr>])
            }
          else
            lex_loop sourceCode (current_index + 1)
              (tokens @ [\<lparr>type = ''ERROR'', value = [current_char]\<rparr>])
        }
      else Some (current_index, tokens))"
  by pat_completeness auto
termination
proof (relation "measure (\<lambda>(s, i, ts). length s - unat i)", goal_cases)
  case 1
  show ?case by simp
next
  case 2
  then show ?case by (auto simp: less_length_unat unat_succ)
next
  case (3 s i ts c x j l)
  then have "unat (i + 1) \<le> unat j" using ident_loop_mono [of s "i + 1" "[c]" j l] by simp
  with 3 show ?case by (auto simp: less_length_unat unat_succ)
next
  case (4 s i ts c x j l)
  then have "unat (i + 1) \<le> unat j" using ident_loop_mono [of s "i + 1" "[c]" j l] by simp
  with 4 show ?case by (auto simp: less_length_unat unat_succ)
next
  case (5 s i ts c x j l)
  then have "unat (i + 1) \<le> unat j" using digit_loop_mono [of s "i + 1" "[c]" j l] by simp
  with 5 show ?case by (auto simp: less_length_unat unat_succ)
next
  case (6 s i ts c la d)
  then have "less_length (i + 1) s"
    by (auto split: if_splits simp: at_not_less_length)
  with 6 have "unat (i + 2) = unat i + 2"
    using unat_succ [of "i + 1"] unat_succ [of i] by (simp add: less_length_unat add.assoc)
  with 6 show ?case by (auto simp: less_length_unat)
next
  case 7
  then show ?case by (auto simp: less_length_unat unat_succ)
next
  case 8
  then show ?case by (auto simp: less_length_unat unat_succ)
next
  case 9
  then show ?case by (auto simp: less_length_unat unat_succ)
next
  case 10
  then show ?case by (auto simp: less_length_unat unat_succ)
qed

declare lex_loop.simps [simp del]
declare ident_loop.simps [simp del]
declare digit_loop.simps [simp del]

text \<open>Lines 49 to 133: the cursor starts at 0 with no token, and the tokens are returned.\<close>

definition lexicalAnalysis :: "string \<Rightarrow> Token list option" where
  "lexicalAnalysis sourceCode = map_option snd (lex_loop sourceCode 0 [])"

section \<open>The analyser as a function on the remaining input\<close>

text \<open>
  The loop never looks behind the cursor, and the cursor leaves the loop when it wraps
  to a negative number, after the character at index \<open>2147483647\<close>. So the loop reads
  the first \<open>2^31\<close> characters at most (\<open>int_prefix\<close>), and what it pushes from
  cursor \<open>i\<close> on depends on the rest of that prefix alone. \<open>tokens_of\<close> is that
  dependence written by recursion on the list; \<open>lex_loop_tokens_of\<close> proves that the
  loop computes it. Both are devices of the proofs.
\<close>

definition int_prefix :: "string \<Rightarrow> string" where
  "int_prefix sourceCode = take 2147483648 sourceCode"

text \<open>The token pushed by lines 116 to 122 for a single character.\<close>

definition single_token :: "char \<Rightarrow> Token" where
  "single_token c =
     (if c = CHR ''+'' \<or> c = CHR ''-'' \<or> c = CHR ''*'' then \<lparr>type = ''ARITHMETIC_OPERATOR'', value = [c]\<rparr>
      else if c = CHR ''='' then \<lparr>type = ''ASSIGNMENT_OPERATOR'', value = [c]\<rparr>
      else \<lparr>type = ''DELIMITER'', value = [c]\<rparr>)"

text \<open>The token pushed by lines 76 to 80 for an accumulated lexeme.\<close>

definition word_token :: "string \<Rightarrow> Token" where
  "word_token l = (if isKeyword l then \<lparr>type = ''KEYWORD'', value = l\<rparr> else \<lparr>type = ''IDENTIFIER'', value = l\<rparr>)"

text \<open>The condition of the loop of line 70, and the lead characters of line 106.\<close>

definition isAlnum :: "char \<Rightarrow> bool" where
  "isAlnum d = (isLetter d \<or> isDigit d)"

definition isRelLead :: "char \<Rightarrow> bool" where
  "isRelLead c = (c = CHR ''='' \<or> c = CHR ''<'' \<or> c = CHR ''>'')"

function tokens_of :: "string \<Rightarrow> Token list" where
  "tokens_of [] = []"
| "tokens_of (c # cs) =
     (if isWhitespace c then tokens_of cs
      else if isLetter c then
        word_token (c # takeWhile isAlnum cs) # tokens_of (dropWhile isAlnum cs)
      else if isDigit c then
        \<lparr>type = ''INTEGER'', value = c # takeWhile isDigit cs\<rparr> # tokens_of (dropWhile isDigit cs)
      else if c \<in> SINGLE_CHAR_TOKENS then
        (if (c = CHR ''='' \<or> c = CHR ''<'' \<or> c = CHR ''>'') \<and> cs \<noteq> [] \<and> hd cs = CHR ''=''
         then \<lparr>type = ''RELATIONAL_OPERATOR'', value = [c, CHR ''='']\<rparr> # tokens_of (tl cs)
         else single_token c # tokens_of cs)
      else \<lparr>type = ''ERROR'', value = [c]\<rparr> # tokens_of cs)"
  by pat_completeness auto
termination
  by (relation "measure length") (auto simp: length_dropWhile_le less_Suc_eq_le)
declare tokens_of.simps(2) [simp del]

text \<open>
  \<open>reinsert gaps lexemes\<close> writes the lexemes in order with \<open>gaps\<close> between them: one gap
  before each lexeme and one after the last.
\<close>

fun reinsert :: "string list \<Rightarrow> string list \<Rightarrow> string" where
  "reinsert (g # gs) (l # ls) = g @ l @ reinsert gs ls"
| "reinsert gs [] = concat gs"
| "reinsert [] ls = concat ls"

text \<open>The five forms of a token the analyser pushes, one for each branch of the loop.\<close>

definition token_shape :: "Token \<Rightarrow> bool" where
  "token_shape t =
     ((\<exists>c l. isLetter c \<and> list_all isAlnum l \<and> t = word_token (c # l)) \<or>
      (\<exists>c l. isDigit c \<and> list_all isDigit l \<and> t = \<lparr>type = ''INTEGER'', value = c # l\<rparr>) \<or>
      (\<exists>c. isRelLead c \<and> t = \<lparr>type = ''RELATIONAL_OPERATOR'', value = [c, CHR ''='']\<rparr>) \<or>
      (\<exists>c. c \<in> SINGLE_CHAR_TOKENS \<and> t = single_token c) \<or>
      (\<exists>c. \<not> isWhitespace c \<and> \<not> isLetter c \<and> \<not> isDigit c \<and> c \<notin> SINGLE_CHAR_TOKENS \<and>
           t = \<lparr>type = ''ERROR'', value = [c]\<rparr>))"

subsection \<open>Character classes are disjoint\<close>

lemma alnum_fold: "(isLetter d \<or> isDigit d) = isAlnum d"
  by (simp add: isAlnum_def)

lemma letter_not_ws: "isLetter c \<Longrightarrow> \<not> isWhitespace c"
  by (auto simp: isLetter_def isWhitespace_def)

lemma digit_not_ws: "isDigit c \<Longrightarrow> \<not> isWhitespace c"
  by (auto simp: isDigit_def isWhitespace_def)

lemma digit_not_letter: "isDigit c \<Longrightarrow> \<not> isLetter c"
  by (auto simp: isDigit_def isLetter_def less_eq_char_def)

lemma single_not_ws: "c \<in> SINGLE_CHAR_TOKENS \<Longrightarrow> \<not> isWhitespace c"
  by (auto simp: SINGLE_CHAR_TOKENS_def isWhitespace_def)

lemma single_not_letter: "c \<in> SINGLE_CHAR_TOKENS \<Longrightarrow> \<not> isLetter c"
  by (auto simp: SINGLE_CHAR_TOKENS_def isLetter_def)

lemma single_not_digit: "c \<in> SINGLE_CHAR_TOKENS \<Longrightarrow> \<not> isDigit c"
  by (auto simp: SINGLE_CHAR_TOKENS_def isDigit_def)

lemma rel_lead_single: "isRelLead c \<Longrightarrow> c \<in> SINGLE_CHAR_TOKENS"
  by (auto simp: isRelLead_def SINGLE_CHAR_TOKENS_def)

lemma alnum_not_ws: "isAlnum c \<Longrightarrow> \<not> isWhitespace c"
  by (auto simp: isAlnum_def letter_not_ws digit_not_ws)

lemma relLead_not_ws: "isRelLead c \<Longrightarrow> \<not> isWhitespace c"
  by (simp add: rel_lead_single single_not_ws)

lemma eq_not_ws: "\<not> isWhitespace (CHR ''='')"
  by (simp add: isWhitespace_def)


subsection \<open>The cursor inside the prefix\<close>

lemma less_length_prefix: "less_length i s \<longleftrightarrow> unat i < length (int_prefix s)"
  by (auto simp: less_length_unat int_prefix_def)

lemma nth_prefix: "k < length (int_prefix s) \<Longrightarrow> int_prefix s ! k = s ! k"
  by (simp add: int_prefix_def)

lemma unat_succ_prefix:
  "unat (i :: 32 word) < length (int_prefix s) \<Longrightarrow> unat (i + 1) = unat i + 1"
  by (rule unat_succ) (simp add: int_prefix_def)

lemma drop_prefix_Cons:
  "k < length (int_prefix s) \<Longrightarrow> drop k (int_prefix s) = s ! k # drop (k + 1) (int_prefix s)"
  using Cons_nth_drop_Suc [of k "int_prefix s"] by (simp add: nth_prefix)

lemma length_prefix_le: "length (int_prefix s) \<le> length s"
  by (simp add: int_prefix_def)

lemma prefix_in_range: "length s \<le> 2147483648 \<Longrightarrow> int_prefix s = s"
  by (simp add: int_prefix_def)

subsection \<open>The accumulation loops take the longest run\<close>

lemma run_le: "i \<le> length s \<Longrightarrow> i + length (takeWhile P (drop i s)) \<le> length s"
  using length_takeWhile_le [of P "drop i s"] by simp

lemma drop_run: "drop (i + length (takeWhile P (drop i s))) s = dropWhile P (drop i s)"
  by (simp add: dropWhile_eq_drop add.commute)

lemma ident_loop_run:
  "unat i \<le> length (int_prefix s) \<Longrightarrow>
   \<exists>j. ident_loop s i l = Some (j, l @ takeWhile isAlnum (drop (unat i) (int_prefix s))) \<and>
       unat j = unat i + length (takeWhile isAlnum (drop (unat i) (int_prefix s)))"
proof (induction "length (int_prefix s) - unat i" arbitrary: i l rule: less_induct)
  case less
  show ?case
  proof (cases "less_length i s")
    case False
    with less.prems have "drop (unat i) (int_prefix s) = []"
      by (simp add: less_length_prefix)
    with False show ?thesis by (subst ident_loop.simps) simp
  next
    case True
    then have lt: "unat i < length (int_prefix s)" by (simp add: less_length_prefix)
    note d = drop_prefix_Cons [OF lt]
    note su = unat_succ_prefix [OF lt]
    note a = at_less_length [OF True]
    show ?thesis
    proof (cases "isAlnum (s ! unat i)")
      case False
      with True a d show ?thesis
        by (subst ident_loop.simps) (simp add: alnum_fold)
    next
      case A: True
      have "\<exists>j. ident_loop s (i + 1) (l @ [s ! unat i]) =
            Some (j, (l @ [s ! unat i]) @ takeWhile isAlnum (drop (unat (i + 1)) (int_prefix s))) \<and>
          unat j = unat (i + 1) + length (takeWhile isAlnum (drop (unat (i + 1)) (int_prefix s)))"
        by (rule less.hyps) (use lt su in simp_all)
      then obtain j where j: "ident_loop s (i + 1) (l @ [s ! unat i]) =
            Some (j, (l @ [s ! unat i]) @ takeWhile isAlnum (drop (unat i + 1) (int_prefix s)))"
          "unat j = unat i + 1 + length (takeWhile isAlnum (drop (unat i + 1) (int_prefix s)))"
        unfolding su by blast
      have "ident_loop s i l = ident_loop s (i + 1) (l @ [s ! unat i])"
        using True a A by (subst ident_loop.simps) (simp add: alnum_fold)
      with j A d show ?thesis by simp
    qed
  qed
qed

lemma digit_loop_run:
  "unat i \<le> length (int_prefix s) \<Longrightarrow>
   \<exists>j. digit_loop s i l = Some (j, l @ takeWhile isDigit (drop (unat i) (int_prefix s))) \<and>
       unat j = unat i + length (takeWhile isDigit (drop (unat i) (int_prefix s)))"
proof (induction "length (int_prefix s) - unat i" arbitrary: i l rule: less_induct)
  case less
  show ?case
  proof (cases "less_length i s")
    case False
    with less.prems have "drop (unat i) (int_prefix s) = []"
      by (simp add: less_length_prefix)
    with False show ?thesis by (subst digit_loop.simps) simp
  next
    case True
    then have lt: "unat i < length (int_prefix s)" by (simp add: less_length_prefix)
    note d = drop_prefix_Cons [OF lt]
    note su = unat_succ_prefix [OF lt]
    note a = at_less_length [OF True]
    show ?thesis
    proof (cases "isDigit (s ! unat i)")
      case False
      with True a d show ?thesis
        by (subst digit_loop.simps) simp
    next
      case A: True
      have "\<exists>j. digit_loop s (i + 1) (l @ [s ! unat i]) =
            Some (j, (l @ [s ! unat i]) @ takeWhile isDigit (drop (unat (i + 1)) (int_prefix s))) \<and>
          unat j = unat (i + 1) + length (takeWhile isDigit (drop (unat (i + 1)) (int_prefix s)))"
        by (rule less.hyps) (use lt su in simp_all)
      then obtain j where j: "digit_loop s (i + 1) (l @ [s ! unat i]) =
            Some (j, (l @ [s ! unat i]) @ takeWhile isDigit (drop (unat i + 1) (int_prefix s)))"
          "unat j = unat i + 1 + length (takeWhile isDigit (drop (unat i + 1) (int_prefix s)))"
        unfolding su by blast
      have "digit_loop s i l = digit_loop s (i + 1) (l @ [s ! unat i])"
        using True a A by (subst digit_loop.simps) simp
      with j A d show ?thesis by simp
    qed
  qed
qed

subsection \<open>One iteration of the main loop\<close>

lemma lex_loop_end: "\<not> less_length i s \<Longrightarrow> lex_loop s i ts = Some (i, ts)"
  by (subst lex_loop.simps) simp

lemma lex_loop_ws:
  "less_length i s \<Longrightarrow> isWhitespace (s ! unat i) \<Longrightarrow> lex_loop s i ts = lex_loop s (i + 1) ts"
  by (subst lex_loop.simps) (simp add: at_less_length)

lemma lex_loop_letter:
  assumes "less_length i s" "isLetter (s ! unat i)"
  shows "\<exists>j. unat j = unat i + 1 + length (takeWhile isAlnum (drop (unat i + 1) (int_prefix s))) \<and>
    lex_loop s i ts =
      lex_loop s j (ts @ [word_token (s ! unat i # takeWhile isAlnum (drop (unat i + 1) (int_prefix s)))])"
proof -
  from assms(1) have lt: "unat i < length (int_prefix s)" by (simp add: less_length_prefix)
  note su = unat_succ_prefix [OF lt]
  from ident_loop_run [of "i + 1" s "[s ! unat i]"] lt su
  obtain j where j: "ident_loop s (i + 1) [s ! unat i] =
        Some (j, s ! unat i # takeWhile isAlnum (drop (unat i + 1) (int_prefix s)))"
      "unat j = unat i + 1 + length (takeWhile isAlnum (drop (unat i + 1) (int_prefix s)))"
    by auto
  have "lex_loop s i ts =
      lex_loop s j (ts @ [word_token (s ! unat i # takeWhile isAlnum (drop (unat i + 1) (int_prefix s)))])"
    using assms letter_not_ws [of "s ! unat i"] j(1)
    by (subst lex_loop.simps) (simp add: at_less_length word_token_def)
  with j(2) show ?thesis by blast
qed

lemma lex_loop_digit:
  assumes "less_length i s" "isDigit (s ! unat i)"
  shows "\<exists>j. unat j = unat i + 1 + length (takeWhile isDigit (drop (unat i + 1) (int_prefix s))) \<and>
    lex_loop s i ts =
      lex_loop s j
        (ts @ [\<lparr>type = ''INTEGER'',
                value = s ! unat i # takeWhile isDigit (drop (unat i + 1) (int_prefix s))\<rparr>])"
proof -
  from assms(1) have lt: "unat i < length (int_prefix s)" by (simp add: less_length_prefix)
  note su = unat_succ_prefix [OF lt]
  from digit_loop_run [of "i + 1" s "[s ! unat i]"] lt su
  obtain j where j: "digit_loop s (i + 1) [s ! unat i] =
        Some (j, s ! unat i # takeWhile isDigit (drop (unat i + 1) (int_prefix s)))"
      "unat j = unat i + 1 + length (takeWhile isDigit (drop (unat i + 1) (int_prefix s)))"
    by auto
  have "lex_loop s i ts =
      lex_loop s j
        (ts @ [\<lparr>type = ''INTEGER'',
                value = s ! unat i # takeWhile isDigit (drop (unat i + 1) (int_prefix s))\<rparr>])"
    using assms digit_not_ws [of "s ! unat i"] digit_not_letter [of "s ! unat i"] j(1)
    by (subst lex_loop.simps) (simp add: at_less_length)
  with j(2) show ?thesis by blast
qed

lemma lex_loop_relational:
  assumes "less_length i s" "less_length (i + 1) s" "isRelLead (s ! unat i)"
    "s ! unat (i + 1) = CHR ''=''"
  shows "lex_loop s i ts =
    lex_loop s (i + 2) (ts @ [\<lparr>type = ''RELATIONAL_OPERATOR'', value = [s ! unat i, CHR ''='']\<rparr>])"
proof -
  note sg = rel_lead_single [OF assms(3)]
  from assms sg single_not_ws [OF sg] single_not_letter [OF sg] single_not_digit [OF sg]
  show ?thesis
    by (subst lex_loop.simps) (simp add: at_less_length isRelLead_def)
qed

lemma lex_loop_single:
  assumes "less_length i s" "s ! unat i \<in> SINGLE_CHAR_TOKENS"
    and "\<not> (isRelLead (s ! unat i) \<and> less_length (i + 1) s \<and> s ! unat (i + 1) = CHR ''='')"
  shows "lex_loop s i ts = lex_loop s (i + 1) (ts @ [single_token (s ! unat i)])"
proof -
  note sg = assms(2)
  note a = at_less_length [OF assms(1)]
  have lk: "(if (s ! unat i = CHR ''='' \<or> s ! unat i = CHR ''<'' \<or> s ! unat i = CHR ''>'') \<and>
                less_length (i + 1) s
             then do { d \<leftarrow> at s (i + 1); Some (d = CHR ''='') } else Some False) = Some False"
    using assms(3) by (auto simp: at_less_length isRelLead_def)
  have "lex_loop s i ts =
        (if s ! unat i = CHR ''+'' \<or> s ! unat i = CHR ''-'' \<or> s ! unat i = CHR ''*'' then
           lex_loop s (i + 1) (ts @ [\<lparr>type = ''ARITHMETIC_OPERATOR'', value = [s ! unat i]\<rparr>])
         else if s ! unat i = CHR ''='' \<and> length [s ! unat i] = 1 then
           lex_loop s (i + 1) (ts @ [\<lparr>type = ''ASSIGNMENT_OPERATOR'', value = [s ! unat i]\<rparr>])
         else lex_loop s (i + 1) (ts @ [\<lparr>type = ''DELIMITER'', value = [s ! unat i]\<rparr>]))"
    using assms(1) single_not_ws [OF sg] single_not_letter [OF sg] single_not_digit [OF sg]
    by (subst lex_loop.simps) (simp only: a sg lk if_True if_False Option.bind.simps)
  then show ?thesis
    by (simp add: single_token_def)
qed

lemma lex_loop_error:
  assumes "less_length i s" "\<not> isWhitespace (s ! unat i)" "\<not> isLetter (s ! unat i)"
    "\<not> isDigit (s ! unat i)" "s ! unat i \<notin> SINGLE_CHAR_TOKENS"
  shows "lex_loop s i ts = lex_loop s (i + 1) (ts @ [\<lparr>type = ''ERROR'', value = [s ! unat i]\<rparr>])"
  using assms by (subst lex_loop.simps) (simp add: at_less_length)

subsection \<open>The loop computes \<open>tokens_of\<close>\<close>

lemma tokens_of_ws: "isWhitespace c \<Longrightarrow> tokens_of (c # cs) = tokens_of cs"
  by (simp add: tokens_of.simps(2))

lemma tokens_of_letter:
  "isLetter c \<Longrightarrow>
   tokens_of (c # cs) = word_token (c # takeWhile isAlnum cs) # tokens_of (dropWhile isAlnum cs)"
  by (simp add: tokens_of.simps(2) letter_not_ws)

lemma tokens_of_digit:
  "isDigit c \<Longrightarrow>
   tokens_of (c # cs) =
     \<lparr>type = ''INTEGER'', value = c # takeWhile isDigit cs\<rparr> # tokens_of (dropWhile isDigit cs)"
  by (simp add: tokens_of.simps(2) digit_not_ws digit_not_letter)

lemma tokens_of_relational:
  "isRelLead c \<Longrightarrow>
   tokens_of (c # CHR ''='' # cs) =
     \<lparr>type = ''RELATIONAL_OPERATOR'', value = [c, CHR ''='']\<rparr> # tokens_of cs"
  using rel_lead_single [of c]
  by (simp add: tokens_of.simps(2) single_not_ws single_not_letter single_not_digit isRelLead_def)

lemma tokens_of_single:
  "c \<in> SINGLE_CHAR_TOKENS \<Longrightarrow> \<not> (isRelLead c \<and> cs \<noteq> [] \<and> hd cs = CHR ''='') \<Longrightarrow>
   tokens_of (c # cs) = single_token c # tokens_of cs"
  by (auto simp add: tokens_of.simps(2) single_not_ws single_not_letter single_not_digit isRelLead_def)

lemma tokens_of_error:
  "\<not> isWhitespace c \<Longrightarrow> \<not> isLetter c \<Longrightarrow> \<not> isDigit c \<Longrightarrow> c \<notin> SINGLE_CHAR_TOKENS \<Longrightarrow>
   tokens_of (c # cs) = \<lparr>type = ''ERROR'', value = [c]\<rparr> # tokens_of cs"
  by (simp add: tokens_of.simps(2))


lemma lex_loop_tokens_of:
  "unat i \<le> length (int_prefix s) \<Longrightarrow>
   \<exists>j. lex_loop s i ts = Some (j, ts @ tokens_of (drop (unat i) (int_prefix s))) \<and>
       unat j = length (int_prefix s)"
proof (induction "length (int_prefix s) - unat i" arbitrary: i ts rule: less_induct)
  case less
  show ?case
  proof (cases "less_length i s")
    case False
    with less.prems have "unat i = length (int_prefix s)"
      by (simp add: less_length_prefix)
    with False show ?thesis by (simp add: lex_loop_end)
  next
    case True
    then have lt: "unat i < length (int_prefix s)" by (simp add: less_length_prefix)
    note d = drop_prefix_Cons [OF lt]
    note su = unat_succ_prefix [OF lt]
    have step: "\<exists>j. lex_loop s k ts' = Some (j, ts' @ tokens_of (drop (unat k) (int_prefix s))) \<and>
        unat j = length (int_prefix s)"
      if "unat i < unat k" "unat k \<le> length (int_prefix s)" for k ts'
      using less.hyps [of k ts'] that lt by simp
    have r1: "unat i + 1 + length (takeWhile P (drop (unat i + 1) (int_prefix s))) \<le> length (int_prefix s)"
      for P
      using run_le [of "unat i + 1" "int_prefix s" P] lt by simp
    have r2: "drop (unat i + 1 + length (takeWhile P (drop (unat i + 1) (int_prefix s)))) (int_prefix s) =
        dropWhile P (drop (unat i + 1) (int_prefix s))" for P
      using drop_run [of "unat i + 1" P "int_prefix s"] by simp
    consider (ws) "isWhitespace (s ! unat i)"
      | (letter) "isLetter (s ! unat i)"
      | (digit) "isDigit (s ! unat i)"
      | (rel) "isRelLead (s ! unat i)" "less_length (i + 1) s" "s ! unat (i + 1) = CHR ''=''"
      | (single) "s ! unat i \<in> SINGLE_CHAR_TOKENS"
          "\<not> (isRelLead (s ! unat i) \<and> less_length (i + 1) s \<and> s ! unat (i + 1) = CHR ''='')"
      | (other) "\<not> isWhitespace (s ! unat i)" "\<not> isLetter (s ! unat i)" "\<not> isDigit (s ! unat i)"
          "s ! unat i \<notin> SINGLE_CHAR_TOKENS"
      by blast
    then show ?thesis
    proof cases
      case ws
      have "tokens_of (drop (unat i) (int_prefix s)) = tokens_of (drop (unat i + 1) (int_prefix s))"
        by (simp only: d tokens_of_ws [OF ws])
      with step [of "i + 1" ts] lt su lex_loop_ws [OF True ws, of ts] show ?thesis by simp
    next
      case letter
      from lex_loop_letter [OF True letter, of ts] obtain k where
        k: "unat k = unat i + 1 + length (takeWhile isAlnum (drop (unat i + 1) (int_prefix s)))"
          "lex_loop s i ts = lex_loop s k
             (ts @ [word_token (s ! unat i # takeWhile isAlnum (drop (unat i + 1) (int_prefix s)))])"
        by blast
      have "tokens_of (drop (unat i) (int_prefix s)) =
          word_token (s ! unat i # takeWhile isAlnum (drop (unat i + 1) (int_prefix s))) #
          tokens_of (dropWhile isAlnum (drop (unat i + 1) (int_prefix s)))"
        by (simp only: d tokens_of_letter [OF letter])
      moreover have "drop (unat k) (int_prefix s) = dropWhile isAlnum (drop (unat i + 1) (int_prefix s))"
        unfolding k(1) by (rule r2)
      moreover have "unat i < unat k" "unat k \<le> length (int_prefix s)"
        using k(1) r1 [of isAlnum] by simp_all
      ultimately show ?thesis
        using step [of k "ts @ [word_token (s ! unat i # takeWhile isAlnum (drop (unat i + 1) (int_prefix s)))]"]
          k(2)
        by simp
    next
      case digit
      from lex_loop_digit [OF True digit, of ts] obtain k where
        k: "unat k = unat i + 1 + length (takeWhile isDigit (drop (unat i + 1) (int_prefix s)))"
          "lex_loop s i ts = lex_loop s k
             (ts @ [\<lparr>type = ''INTEGER'',
                    value = s ! unat i # takeWhile isDigit (drop (unat i + 1) (int_prefix s))\<rparr>])"
        by blast
      have "tokens_of (drop (unat i) (int_prefix s)) =
          \<lparr>type = ''INTEGER'', value = s ! unat i # takeWhile isDigit (drop (unat i + 1) (int_prefix s))\<rparr> #
          tokens_of (dropWhile isDigit (drop (unat i + 1) (int_prefix s)))"
        by (simp only: d tokens_of_digit [OF digit])
      moreover have "drop (unat k) (int_prefix s) = dropWhile isDigit (drop (unat i + 1) (int_prefix s))"
        unfolding k(1) by (rule r2)
      moreover have "unat i < unat k" "unat k \<le> length (int_prefix s)"
        using k(1) r1 [of isDigit] by simp_all
      ultimately show ?thesis
        using step [of k "ts @ [\<lparr>type = ''INTEGER'',
                    value = s ! unat i # takeWhile isDigit (drop (unat i + 1) (int_prefix s))\<rparr>]"]
          k(2)
        by simp
    next
      case rel
      from rel(2) have lt2: "unat i + 1 < length (int_prefix s)"
        by (simp add: less_length_prefix su)
      then have su2: "unat (i + 2) = unat i + 2"
        using unat_succ_prefix [of "i + 1" s] su by (simp add: add.assoc)
      have d2: "drop (unat i + 1) (int_prefix s) = CHR ''='' # drop (unat i + 2) (int_prefix s)"
        using drop_prefix_Cons [OF lt2] rel(3) su by simp
      have "tokens_of (drop (unat i) (int_prefix s)) =
          \<lparr>type = ''RELATIONAL_OPERATOR'', value = [s ! unat i, CHR ''='']\<rparr> #
          tokens_of (drop (unat i + 2) (int_prefix s))"
        by (simp only: d d2 tokens_of_relational [OF rel(1)])
      with step [of "i + 2" "ts @ [\<lparr>type = ''RELATIONAL_OPERATOR'', value = [s ! unat i, CHR ''='']\<rparr>]"]
        lt2 su2 lex_loop_relational [OF True rel(2) rel(1) rel(3), of ts]
      show ?thesis by simp
    next
      case single
      have nl: "\<not> (isRelLead (s ! unat i) \<and> drop (unat i + 1) (int_prefix s) \<noteq> [] \<and>
          hd (drop (unat i + 1) (int_prefix s)) = CHR ''='')"
        using single(2) su by (auto simp: hd_drop_conv_nth less_length_prefix nth_prefix)
      have "tokens_of (drop (unat i) (int_prefix s)) =
          single_token (s ! unat i) # tokens_of (drop (unat i + 1) (int_prefix s))"
        by (simp only: d tokens_of_single [OF single(1) nl])
      with step [of "i + 1" "ts @ [single_token (s ! unat i)]"] lt su
        lex_loop_single [OF True single, of ts]
      show ?thesis by simp
    next
      case other
      have "tokens_of (drop (unat i) (int_prefix s)) =
          \<lparr>type = ''ERROR'', value = [s ! unat i]\<rparr> # tokens_of (drop (unat i + 1) (int_prefix s))"
        by (simp only: d tokens_of_error [OF other])
      with step [of "i + 1" "ts @ [\<lparr>type = ''ERROR'', value = [s ! unat i]\<rparr>]"] lt su
        lex_loop_error [OF True other, of ts]
      show ?thesis by simp
    qed
  qed
qed

lemma lexicalAnalysis_tokens_of: "lexicalAnalysis s = Some (tokens_of (int_prefix s))"
  using lex_loop_tokens_of [of 0 s "[]"] by (auto simp: lexicalAnalysis_def)

lemma lexicalAnalysis_in_range:
  "length s \<le> 2147483648 \<Longrightarrow> lexicalAnalysis s = Some (tokens_of s)"
  by (simp add: lexicalAnalysis_tokens_of prefix_in_range)

subsection \<open>Every token is cut off the front of the remaining input\<close>

lemma value_word_token [simp]: "value (word_token l) = l"
  by (simp add: word_token_def)

lemma value_single_token [simp]: "value (single_token c) = [c]"
  by (simp add: single_token_def)

lemma list_all_takeWhile: "list_all P (takeWhile P xs)"
  by (induction xs) auto

lemma tokens_of_step:
  assumes "\<not> isWhitespace c"
  shows "\<exists>t rest. tokens_of (c # cs) = t # tokens_of rest \<and> value t @ rest = c # cs \<and>
           length rest \<le> length cs \<and> token_shape t"
proof -
  consider (letter) "isLetter c" | (digit) "isDigit c"
    | (rel) cs' where "isRelLead c" "cs = CHR ''='' # cs'"
    | (single) "c \<in> SINGLE_CHAR_TOKENS" "\<not> (isRelLead c \<and> cs \<noteq> [] \<and> hd cs = CHR ''='')"
    | (other) "\<not> isLetter c" "\<not> isDigit c" "c \<notin> SINGLE_CHAR_TOKENS"
    by (cases cs) auto
  then show ?thesis
  proof cases
    case letter
    have "token_shape (word_token (c # takeWhile isAlnum cs))"
      unfolding token_shape_def using letter list_all_takeWhile [of isAlnum cs] by blast
    moreover have "value (word_token (c # takeWhile isAlnum cs)) @ dropWhile isAlnum cs = c # cs"
      by (simp add: word_token_def)
    ultimately show ?thesis
      using tokens_of_letter [OF letter, of cs] length_dropWhile_le [of isAlnum cs] by blast
  next
    case digit
    have "token_shape \<lparr>type = ''INTEGER'', value = c # takeWhile isDigit cs\<rparr>"
      unfolding token_shape_def using digit list_all_takeWhile [of isDigit cs] by blast
    moreover have "value \<lparr>type = ''INTEGER'', value = c # takeWhile isDigit cs\<rparr> @ dropWhile isDigit cs = c # cs"
      by simp
    ultimately show ?thesis
      using tokens_of_digit [OF digit, of cs] length_dropWhile_le [of isDigit cs] by blast
  next
    case rel
    have "token_shape \<lparr>type = ''RELATIONAL_OPERATOR'', value = [c, CHR ''='']\<rparr>"
      unfolding token_shape_def using rel(1) by blast
    moreover have "value \<lparr>type = ''RELATIONAL_OPERATOR'', value = [c, CHR ''='']\<rparr> @ cs' = c # cs"
      using rel(2) by simp
    moreover have "length cs' \<le> length cs" using rel(2) by simp
    ultimately show ?thesis
      using tokens_of_relational [OF rel(1), of cs'] rel(2) by blast
  next
    case single
    have "token_shape (single_token c)"
      unfolding token_shape_def using single(1) by blast
    moreover have "value (single_token c) @ cs = c # cs"
      by (simp add: single_token_def)
    ultimately show ?thesis
      using tokens_of_single [OF single] by blast
  next
    case other
    have "token_shape \<lparr>type = ''ERROR'', value = [c]\<rparr>"
      unfolding token_shape_def using other assms by blast
    moreover have "value \<lparr>type = ''ERROR'', value = [c]\<rparr> @ cs = c # cs"
      by simp
    ultimately show ?thesis
      using tokens_of_error [OF assms other] by blast
  qed
qed

lemma shape_no_ws: "token_shape t \<Longrightarrow> list_all (\<lambda>c. \<not> isWhitespace c) (value t)"
  unfolding token_shape_def
  by (auto simp: letter_not_ws digit_not_ws relLead_not_ws single_not_ws list_all_iff
      alnum_not_ws eq_not_ws)

lemma shape_nonempty: "token_shape t \<Longrightarrow> value t \<noteq> []"
  unfolding token_shape_def by auto

lemma tokens_of_shapes: "list_all token_shape (tokens_of s)"
proof (induction "length s" arbitrary: s rule: less_induct)
  case less
  show ?case
  proof (cases s)
    case Nil
    then show ?thesis by simp
  next
    case (Cons c cs)
    show ?thesis
    proof (cases "isWhitespace c")
      case True
      with Cons less [of cs] show ?thesis by (simp add: tokens_of_ws)
    next
      case False
      from tokens_of_step [OF False, of cs] obtain t rest where
        "tokens_of (c # cs) = t # tokens_of rest" "length rest \<le> length cs" "token_shape t"
        by blast
      with Cons less [of rest] show ?thesis by simp
    qed
  qed
qed

lemma tokens_of_gaps:
  "\<exists>gaps. length gaps = Suc (length (tokens_of s)) \<and> list_all isWhitespace (concat gaps) \<and>
     reinsert gaps (map value (tokens_of s)) = s"
proof (induction "length s" arbitrary: s rule: less_induct)
  case less
  show ?case
  proof (cases s)
    case Nil
    have "length [[]] = Suc (length (tokens_of [])) \<and> list_all isWhitespace (concat [[]]) \<and>
      reinsert [[]] (map value (tokens_of [])) = []" by simp
    with Nil show ?thesis by blast
  next
    case (Cons c cs)
    show ?thesis
    proof (cases "isWhitespace c")
      case True
      from less [of cs] Cons obtain gaps where g: "length gaps = Suc (length (tokens_of cs))"
        "list_all isWhitespace (concat gaps)" "reinsert gaps (map value (tokens_of cs)) = cs"
        by auto
      then obtain g gs where gg: "gaps = g # gs" by (cases gaps) auto
      have "reinsert ((c # g) # gs) ls = c # reinsert (g # gs) ls" for ls
        by (cases ls) auto
      with g gg True have "length ((c # g) # gs) = Suc (length (tokens_of cs)) \<and>
        list_all isWhitespace (concat ((c # g) # gs)) \<and>
        reinsert ((c # g) # gs) (map value (tokens_of cs)) = c # cs" by simp
      with Cons True show ?thesis by (simp only: tokens_of_ws) blast
    next
      case False
      from tokens_of_step [OF False, of cs] obtain t rest where
        t: "tokens_of (c # cs) = t # tokens_of rest" "value t @ rest = c # cs"
          "length rest \<le> length cs"
        by blast
      from less [of rest] Cons t(3) obtain gaps where g: "length gaps = Suc (length (tokens_of rest))"
        "list_all isWhitespace (concat gaps)" "reinsert gaps (map value (tokens_of rest)) = rest"
        by auto
      with t have "length ([] # gaps) = Suc (length (tokens_of (c # cs))) \<and>
        list_all isWhitespace (concat ([] # gaps)) \<and>
        reinsert ([] # gaps) (map value (tokens_of (c # cs))) = c # cs" by simp
      with Cons show ?thesis by blast
    qed
  qed
qed

lemma tokens_of_filter:
  "concat (map value (tokens_of s)) = filter (\<lambda>c. \<not> isWhitespace c) s"
proof (induction "length s" arbitrary: s rule: less_induct)
  case less
  show ?case
  proof (cases s)
    case Nil
    then show ?thesis by simp
  next
    case (Cons c cs)
    show ?thesis
    proof (cases "isWhitespace c")
      case True
      with Cons less [of cs] show ?thesis by (simp add: tokens_of_ws)
    next
      case False
      from tokens_of_step [OF False, of cs] obtain t rest where
        t: "tokens_of (c # cs) = t # tokens_of rest" "value t @ rest = c # cs"
          "length rest \<le> length cs" "token_shape t"
        by blast
      have "filter (\<lambda>c. \<not> isWhitespace c) (value t) = value t"
        using shape_no_ws [OF t(4)] by (simp add: list_all_iff)
      then have "filter (\<lambda>c. \<not> isWhitespace c) (value t @ rest) = value t @ filter (\<lambda>c. \<not> isWhitespace c) rest"
        by simp
      with t(1,3) Cons less [of rest] show ?thesis
        unfolding t(2) by simp
    qed
  qed
qed

lemma tokens_of_whitespace: "list_all isWhitespace s \<Longrightarrow> tokens_of s = []"
  by (induction s) (auto simp: tokens_of_ws)

lemma tokens_of_count: "length (tokens_of s) \<le> length (concat (map value (tokens_of s)))"
proof -
  have "list_all (\<lambda>t. value t \<noteq> []) ts \<Longrightarrow> length ts \<le> length (concat (map value ts))" for ts :: "Token list"
  proof (induction ts)
    case Nil
    then show ?case by simp
  next
    case (Cons t ts)
    then have "length (value t) \<ge> 1" by (cases "value t") auto
    with Cons show ?case by simp
  qed
  moreover have "list_all (\<lambda>t. value t \<noteq> []) (tokens_of s)"
    using tokens_of_shapes [of s] shape_nonempty by (auto simp: list_all_iff)
  ultimately show ?thesis by blast
qed

subsection \<open>A character that ends every lexeme splits the analysis\<close>

lemma takeWhile_break: "\<not> P c \<Longrightarrow> takeWhile P (xs @ c # ys) = takeWhile P xs"
  by (induction xs) auto

lemma dropWhile_break: "\<not> P c \<Longrightarrow> dropWhile P (xs @ c # ys) = dropWhile P xs @ c # ys"
  by (induction xs) auto

lemma tokens_of_break:
  assumes "\<not> isLetter c" "\<not> isDigit c" "c \<noteq> CHR ''=''"
  shows "tokens_of (xs @ c # ys) = tokens_of xs @ tokens_of (c # ys)"
proof (induction "length xs" arbitrary: xs rule: less_induct)
  case less
  have na: "\<not> isAlnum c" using assms by (simp add: isAlnum_def)
  show ?case
  proof (cases xs)
    case Nil
    then show ?thesis by simp
  next
    case (Cons x xs')
    consider (ws) "isWhitespace x" | (letter) "isLetter x" | (digit) "isDigit x"
      | (rel) xs'' where "isRelLead x" "xs' = CHR ''='' # xs''"
      | (single) "x \<in> SINGLE_CHAR_TOKENS" "\<not> (isRelLead x \<and> xs' \<noteq> [] \<and> hd xs' = CHR ''='')"
      | (other) "\<not> isWhitespace x" "\<not> isLetter x" "\<not> isDigit x" "x \<notin> SINGLE_CHAR_TOKENS"
      by (cases xs') auto
    then show ?thesis
    proof cases
      case ws
      with Cons less [of xs'] show ?thesis by (simp add: tokens_of_ws)
    next
      case letter
      have "length (dropWhile isAlnum xs') < length xs"
        using length_dropWhile_le [of isAlnum xs'] Cons by simp
      from less [OF this] Cons show ?thesis
        by (simp add: tokens_of_letter [OF letter] takeWhile_break [of isAlnum, OF na] dropWhile_break [of isAlnum, OF na])
    next
      case digit
      have "length (dropWhile isDigit xs') < length xs"
        using length_dropWhile_le [of isDigit xs'] Cons by simp
      from less [OF this] Cons show ?thesis
        by (simp add: tokens_of_digit [OF digit] takeWhile_break [of isDigit, OF assms(2)] dropWhile_break [of isDigit, OF assms(2)])
    next
      case rel
      with Cons less [of xs''] show ?thesis
        by (simp add: tokens_of_relational [OF rel(1)])
    next
      case single
      have "\<not> (isRelLead x \<and> xs' @ c # ys \<noteq> [] \<and> hd (xs' @ c # ys) = CHR ''='')"
        using single(2) assms(3) by (cases xs') auto
      from tokens_of_single [OF single(1) this] tokens_of_single [OF single] Cons less [of xs']
      show ?thesis by simp
    next
      case other
      with Cons less [of xs'] show ?thesis
        by (simp add: tokens_of_error [OF other])
    qed
  qed
qed


subsection \<open>Types and lengths of the pushed tokens\<close>

lemma type_word_token:
  "type (word_token l) = ''KEYWORD'' \<or> type (word_token l) = ''IDENTIFIER''"
  by (simp add: word_token_def)

lemma type_single_token:
  "type (single_token c) = ''ARITHMETIC_OPERATOR'' \<or> type (single_token c) = ''ASSIGNMENT_OPERATOR'' \<or>
   type (single_token c) = ''DELIMITER''"
  by (simp add: single_token_def)

lemma shape_lengths:
  assumes "token_shape t"
  shows "value t \<noteq> [] \<and>
     (type t \<in> {''KEYWORD'', ''IDENTIFIER'', ''INTEGER''} \<or>
      type t = ''RELATIONAL_OPERATOR'' \<and> length (value t) = 2 \<or>
      type t \<in> {''ARITHMETIC_OPERATOR'', ''ASSIGNMENT_OPERATOR'', ''DELIMITER'', ''ERROR''} \<and>
        length (value t) = 1)"
proof -
  from assms consider
      (word) l where "t = word_token l" "l \<noteq> []"
    | (int) l where "t = \<lparr>type = ''INTEGER'', value = l\<rparr>" "l \<noteq> []"
    | (rel) c where "t = \<lparr>type = ''RELATIONAL_OPERATOR'', value = [c, CHR ''='']\<rparr>"
    | (single) c where "t = single_token c"
    | (err) c where "t = \<lparr>type = ''ERROR'', value = [c]\<rparr>"
    unfolding token_shape_def by blast
  then show ?thesis
  proof cases
    case word
    with type_word_token [of l] show ?thesis by auto
  next
    case int
    then show ?thesis by simp
  next
    case rel
    then show ?thesis by simp
  next
    case single
    with type_single_token [of c] show ?thesis by auto
  next
    case err
    then show ?thesis by simp
  qed
qed

lemma shape_delimiter:
  assumes "token_shape t" "type t = ''DELIMITER''"
  shows "\<exists>d \<in> {CHR ''/'', CHR '';'', CHR ''('', CHR '')'', CHR ''{'', CHR ''}'', CHR ''<'', CHR ''>''}.
           value t = [d]"
proof -
  from assms(1) consider
      (word) l where "t = word_token l"
    | (int) l where "t = \<lparr>type = ''INTEGER'', value = l\<rparr>"
    | (rel) c where "t = \<lparr>type = ''RELATIONAL_OPERATOR'', value = [c, CHR ''='']\<rparr>"
    | (single) c where "t = single_token c" "c \<in> SINGLE_CHAR_TOKENS"
    | (err) c where "t = \<lparr>type = ''ERROR'', value = [c]\<rparr>"
    unfolding token_shape_def by blast
  then show ?thesis
  proof cases
    case word
    with type_word_token [of l] assms(2) show ?thesis by auto
  next
    case int
    with assms(2) show ?thesis by simp
  next
    case rel
    with assms(2) show ?thesis by simp
  next
    case single
    from single(1) assms(2) have "c \<noteq> CHR ''+'' \<and> c \<noteq> CHR ''-'' \<and> c \<noteq> CHR ''*'' \<and> c \<noteq> CHR ''=''"
      by (auto simp: single_token_def split: if_splits)
    with single(2) have "c \<in> {CHR ''/'', CHR '';'', CHR ''('', CHR '')'', CHR ''{'', CHR ''}'', CHR ''<'', CHR ''>''}"
      by (auto simp: SINGLE_CHAR_TOKENS_def)
    with single(1) show ?thesis by simp
  next
    case err
    with assms(2) show ?thesis by simp
  qed
qed


subsection \<open>Inputs longer than the cursor can count\<close>

lemma tokens_of_spaces: "tokens_of (replicate n (CHR '' '') @ xs) = tokens_of xs"
  by (induction n) (simp_all add: tokens_of_ws isWhitespace_def)

lemma prefix_spaces:
  "int_prefix (replicate 2147483648 (CHR '' '') @ xs) = replicate 2147483648 (CHR '' '') @ []"
  by (simp add: int_prefix_def)

lemma prefix_spaces_one:
  "int_prefix (replicate 2147483647 (CHR '' '') @ c # xs) = replicate 2147483647 (CHR '' '') @ [c]"
  by (simp add: int_prefix_def)

lemma analysis_after_spaces: "lexicalAnalysis (replicate 2147483648 (CHR '' '') @ xs) = Some []"
  by (simp only: lexicalAnalysis_tokens_of prefix_spaces tokens_of_spaces tokens_of.simps(1))

lemma analysis_after_spaces_one:
  "lexicalAnalysis (replicate 2147483647 (CHR '' '') @ c # xs) = Some (tokens_of [c])"
  by (simp only: lexicalAnalysis_tokens_of prefix_spaces_one tokens_of_spaces)

subsection \<open>Inputs whose length fits the cursor\<close>

text \<open>
  On an input of fewer than \<open>2^31\<close> characters the cursor never overflows: the loop ends
  with the cursor at the length of the input, and the tokens are those of the whole
  input.
\<close>

lemma in_range_complete:
  assumes "length s < 2147483648"
  shows "\<exists>j. lex_loop s 0 [] = Some (j, tokens_of s) \<and> sint j = int (length s)"
proof -
  from assms have p: "int_prefix s = s" by (simp add: prefix_in_range)
  from lex_loop_tokens_of [of 0 s "[]"] obtain j where
    j: "lex_loop s 0 [] = Some (j, tokens_of s)" "unat j = length s"
    by (auto simp: p)
  from j(2) assms have "0 \<le> sint j" by (simp add: sint_nonneg_iff)
  from sint_nonneg_unat [OF this] this j(2) have "sint j = int (length s)" by simp
  with j(1) show ?thesis by blast
qed

lemma in_range_lossless:
  assumes "length s < 2147483648"
  shows "\<exists>tokens gaps. lexicalAnalysis s = Some tokens \<and>
     length gaps = Suc (length tokens) \<and>
     list_all isWhitespace (concat gaps) \<and>
     reinsert gaps (map value tokens) = s \<and>
     concat (map value tokens) = filter (\<lambda>c. \<not> isWhitespace c) s"
  using tokens_of_gaps [of s] tokens_of_filter [of s] assms
  by (auto simp: lexicalAnalysis_in_range)

lemma in_range_error_token:
  assumes "length (xs @ c # ys) < 2147483648"
    and "\<not> isLetter c" "\<not> isDigit c" "\<not> isWhitespace c" "c \<notin> SINGLE_CHAR_TOKENS"
  shows "\<exists>tx ty. lexicalAnalysis xs = Some tx \<and> lexicalAnalysis ys = Some ty \<and>
     lexicalAnalysis (xs @ c # ys) = Some (tx @ \<lparr>type = ''ERROR'', value = [c]\<rparr> # ty)"
proof -
  from assms(5) have ne: "c \<noteq> CHR ''=''" by (auto simp: SINGLE_CHAR_TOKENS_def)
  have "tokens_of (xs @ c # ys) = tokens_of xs @ tokens_of (c # ys)"
    using tokens_of_break [of c xs ys] assms ne by simp
  moreover have "tokens_of (c # ys) = \<lparr>type = ''ERROR'', value = [c]\<rparr> # tokens_of ys"
    using tokens_of_error [of c ys] assms by simp
  ultimately show ?thesis
    using assms(1) by (simp add: lexicalAnalysis_in_range)
qed

section \<open>The claims\<close>

text \<open>
  C1. The claim fails on an input of \<open>2^31\<close> spaces followed by \<open>a\<close>: the cursor wraps
  to a negative number after the last space, the test of line 53 fails, and the analysis
  returns no token, while the input without its whitespace is \<open>a\<close>. On inputs of fewer
  than \<open>2^31\<close> characters the claim holds (\<open>in_range_lossless\<close>).
\<close>

theorem lossless_fails_beyond_int:
  "lexicalAnalysis (replicate 2147483648 (CHR '' '') @ ''a'') = Some [] \<and>
   filter (\<lambda>c. \<not> isWhitespace c) (replicate 2147483648 (CHR '' '') @ ''a'') = ''a''"
  by (simp add: analysis_after_spaces isWhitespace_def)

text \<open>
  C2. The claim fails on an input of \<open>2^31\<close> spaces followed by \<open>x=1;\<close>: the cursor
  overflows after the last space, and the loop ends with the cursor wrapped to
  \<open>- 2147483648\<close>, with the four characters \<open>x=1;\<close> unread and with no token. On inputs
  of fewer than \<open>2^31\<close> characters the loop ends with the cursor at the end of the input
  and with the tokens of the whole input (\<open>in_range_complete\<close>).
\<close>

theorem analysis_stops_at_int_overflow:
  "lex_loop (replicate 2147483648 (CHR '' '') @ ''x=1;'') 0 [] = Some (2147483648, []) \<and>
   sint (2147483648 :: 32 word) = - 2147483648 \<and>
   length (replicate 2147483648 (CHR '' '') @ ''x=1;'') = 2147483652"
proof -
  from lex_loop_tokens_of [of 0 "replicate 2147483648 (CHR '' '') @ ''x=1;''" "[]"]
  obtain j where j: "lex_loop (replicate 2147483648 (CHR '' '') @ ''x=1;'') 0 [] = Some (j, [])"
      "unat j = 2147483648"
    by (auto simp: prefix_spaces tokens_of_spaces [of _ "[]", simplified])
  have "unat (2147483648 :: 32 word) = 2147483648" by simp
  with j(2) have "j = 2147483648" by (simp add: word_unat_eq_iff)
  with j(1) show ?thesis by simp
qed

text \<open>
  C3, as the claim states it, fails: a \<open><\<close> that is not followed by \<open>=\<close> is pushed as a
  DELIMITER token (line 121), and \<open><\<close> is not one of the six characters.
\<close>

theorem delimiter_characters_counterexample:
  "lexicalAnalysis ''<'' = Some [\<lparr>type = ''DELIMITER'', value = ''<''\<rparr>] \<and>
   CHR ''<'' \<notin> {CHR ''/'', CHR '';'', CHR ''('', CHR '')'', CHR ''{'', CHR ''}''}"
  by (simp add: lexicalAnalysis_in_range tokens_of.simps(2) isWhitespace_def isLetter_def
      isDigit_def SINGLE_CHAR_TOKENS_def single_token_def)

text \<open>
  C3, amended. The characters pushed as DELIMITER tokens are the eight characters
  \<open>/ ; ( ) { } < >\<close>: a DELIMITER token of any output has a lexeme of one character,
  one of the eight; and in an input of fewer than \<open>2^31\<close> characters every occurrence of
  one of the six characters \<open>/ ; ( ) { }\<close>, and every occurrence of \<open><\<close> or \<open>>\<close> that is
  not followed by \<open>=\<close>, is pushed as one DELIMITER token between the tokens of the text
  before it and of the text after it.
\<close>

theorem delimiter_characters:
  "(\<forall>tokens t. lexicalAnalysis s = Some tokens \<longrightarrow> t \<in> set tokens \<longrightarrow> type t = ''DELIMITER'' \<longrightarrow>
      (\<exists>d \<in> {CHR ''/'', CHR '';'', CHR ''('', CHR '')'', CHR ''{'', CHR ''}'', CHR ''<'', CHR ''>''}.
         value t = [d])) \<and>
   (length (xs @ c # ys) < 2147483648 \<and>
    (c \<in> {CHR ''/'', CHR '';'', CHR ''('', CHR '')'', CHR ''{'', CHR ''}''} \<or>
     c \<in> {CHR ''<'', CHR ''>''} \<and> (ys = [] \<or> hd ys \<noteq> CHR ''='')) \<longrightarrow>
      (\<exists>tx ty. lexicalAnalysis xs = Some tx \<and> lexicalAnalysis ys = Some ty \<and>
         lexicalAnalysis (xs @ c # ys) = Some (tx @ \<lparr>type = ''DELIMITER'', value = [c]\<rparr> # ty)))"
proof (intro conjI allI impI)
  fix tokens t
  assume "lexicalAnalysis s = Some tokens" "t \<in> set tokens" "type t = ''DELIMITER''"
  then have "token_shape t"
    using tokens_of_shapes [of "int_prefix s"] by (auto simp: lexicalAnalysis_tokens_of list_all_iff)
  then show "\<exists>d \<in> {CHR ''/'', CHR '';'', CHR ''('', CHR '')'', CHR ''{'', CHR ''}'', CHR ''<'', CHR ''>''}.
      value t = [d]"
    using \<open>type t = ''DELIMITER''\<close> by (rule shape_delimiter)
next
  assume a: "length (xs @ c # ys) < 2147483648 \<and>
    (c \<in> {CHR ''/'', CHR '';'', CHR ''('', CHR '')'', CHR ''{'', CHR ''}''} \<or>
     c \<in> {CHR ''<'', CHR ''>''} \<and> (ys = [] \<or> hd ys \<noteq> CHR ''=''))"
  then have c: "c \<in> {CHR ''/'', CHR '';'', CHR ''('', CHR '')'', CHR ''{'', CHR ''}''} \<or>
     c \<in> {CHR ''<'', CHR ''>''} \<and> (ys = [] \<or> hd ys \<noteq> CHR ''='')" by simp
  then have sg: "c \<in> SINGLE_CHAR_TOKENS" by (auto simp: SINGLE_CHAR_TOKENS_def)
  have ne: "c \<noteq> CHR ''=''" using c by auto
  have nl: "\<not> (isRelLead c \<and> ys \<noteq> [] \<and> hd ys = CHR ''='')"
    using c by (auto simp: isRelLead_def)
  have st: "single_token c = \<lparr>type = ''DELIMITER'', value = [c]\<rparr>"
    using c by (auto simp: single_token_def)
  have "tokens_of (xs @ c # ys) = tokens_of xs @ tokens_of (c # ys)"
    using tokens_of_break [OF single_not_letter [OF sg] single_not_digit [OF sg] ne] .
  then have "tokens_of (xs @ c # ys) = tokens_of xs @ \<lparr>type = ''DELIMITER'', value = [c]\<rparr> # tokens_of ys"
    by (simp add: tokens_of_single [OF sg nl] st)
  then show "\<exists>tx ty. lexicalAnalysis xs = Some tx \<and> lexicalAnalysis ys = Some ty \<and>
         lexicalAnalysis (xs @ c # ys) = Some (tx @ \<lparr>type = ''DELIMITER'', value = [c]\<rparr> # ty)"
    using a by (simp add: lexicalAnalysis_in_range)
qed

theorem delimiter_characters_witness:
  "lexicalAnalysis ''a<b;'' =
     Some [\<lparr>type = ''IDENTIFIER'', value = ''a''\<rparr>, \<lparr>type = ''DELIMITER'', value = ''<''\<rparr>,
           \<lparr>type = ''IDENTIFIER'', value = ''b''\<rparr>, \<lparr>type = ''DELIMITER'', value = '';''\<rparr>] \<and>
   (\<exists>d \<in> {CHR ''/'', CHR '';'', CHR ''('', CHR '')'', CHR ''{'', CHR ''}'', CHR ''<'', CHR ''>''}.
      value \<lparr>type = ''DELIMITER'', value = ''<''\<rparr> = [d])"
proof -
  note th = delimiter_characters [of "''a<b;''" "''a''" "CHR ''<''" "''b;''"]
  have a: "lexicalAnalysis ''a'' = Some [\<lparr>type = ''IDENTIFIER'', value = ''a''\<rparr>]"
    by code_simp
  have b: "lexicalAnalysis ''b;'' =
      Some [\<lparr>type = ''IDENTIFIER'', value = ''b''\<rparr>, \<lparr>type = ''DELIMITER'', value = '';''\<rparr>]"
    by code_simp
  have "length (''a'' @ CHR ''<'' # ''b;'') < 2147483648 \<and>
      (CHR ''<'' \<in> {CHR ''<'', CHR ''>''} \<and> (''b;'' = [] \<or> hd ''b;'' \<noteq> CHR ''=''))"
    by simp
  with th a b have r: "lexicalAnalysis ''a<b;'' =
     Some [\<lparr>type = ''IDENTIFIER'', value = ''a''\<rparr>, \<lparr>type = ''DELIMITER'', value = ''<''\<rparr>,
           \<lparr>type = ''IDENTIFIER'', value = ''b''\<rparr>, \<lparr>type = ''DELIMITER'', value = '';''\<rparr>]"
    by simp
  have "\<exists>d \<in> {CHR ''/'', CHR '';'', CHR ''('', CHR '')'', CHR ''{'', CHR ''}'', CHR ''<'', CHR ''>''}.
      value \<lparr>type = ''DELIMITER'', value = ''<''\<rparr> = [d]"
    by (rule th [THEN conjunct1, rule_format, OF r]) simp_all
  with r show ?thesis by simp
qed

text \<open>
  C4. The claim fails on an input of \<open>2^31 - 1\<close> spaces followed by \<open>==\<close>: the first \<open>=\<close>
  is at cursor \<open>2147483647\<close> and the character after it exists and is \<open>=\<close>, but
  \<open>current_index + 1\<close> (line 107) wraps to a negative number, the lookahead is not taken,
  and the \<open>=\<close> is pushed alone as an ASSIGNMENT_OPERATOR token. Where \<open>current_index + 1\<close>
  is below the length, the lookahead is taken (\<open>lex_loop_relational\<close>).
\<close>

theorem relational_lookahead_fails_at_int_max:
  "lexicalAnalysis (replicate 2147483647 (CHR '' '') @ ''=='') =
     Some [\<lparr>type = ''ASSIGNMENT_OPERATOR'', value = ''=''\<rparr>] \<and>
   (replicate 2147483647 (CHR '' '') @ ''=='') ! 2147483647 = CHR ''='' \<and>
   (replicate 2147483647 (CHR '' '') @ ''=='') ! 2147483648 = CHR ''=''"
  by (simp add: analysis_after_spaces_one nth_append tokens_of.simps(2) isWhitespace_def
      isLetter_def isDigit_def SINGLE_CHAR_TOKENS_def single_token_def)

text \<open>
  C5. The claim fails on an input of \<open>2^31 - 1\<close> spaces followed by \<open>if\<close>: the letter
  \<open>i\<close> is at cursor \<open>2147483647\<close>, \<open>current_index++\<close> (line 67) wraps to a negative
  number, the loop of line 70 does not run, and the lexeme is \<open>i\<close>, pushed as an
  IDENTIFIER, where the longest run of letters and digits is the keyword \<open>if\<close>. Within
  the first \<open>2^31\<close> characters the lexeme is the longest run (\<open>lex_loop_letter\<close>).
\<close>

theorem identifier_cut_at_int_max:
  "lexicalAnalysis (replicate 2147483647 (CHR '' '') @ ''if'') =
     Some [\<lparr>type = ''IDENTIFIER'', value = ''i''\<rparr>] \<and>
   takeWhile (\<lambda>d. isLetter d \<or> isDigit d)
     (drop 2147483647 (replicate 2147483647 (CHR '' '') @ ''if'')) = ''if''"
  by (simp add: analysis_after_spaces_one tokens_of.simps(2) isWhitespace_def
      isLetter_def isDigit_def word_token_def isKeyword_def KEYWORDS_def)

text \<open>
  C6. The claim fails on an input of \<open>2^31\<close> spaces followed by \<open>@\<close>: \<open>@\<close> is no
  letter, no digit, no whitespace and no single-character token, and the analysis returns
  no token, so no ERROR token for it. On inputs of fewer than \<open>2^31\<close> characters the
  claim holds (\<open>in_range_error_token\<close>).
\<close>

theorem error_character_lost_beyond_int:
  "lexicalAnalysis (replicate 2147483648 (CHR '' '') @ ''@'') = Some [] \<and>
   \<not> isLetter (CHR ''@'') \<and> \<not> isDigit (CHR ''@'') \<and> \<not> isWhitespace (CHR ''@'') \<and>
   CHR ''@'' \<notin> SINGLE_CHAR_TOKENS"
  by (simp add: analysis_after_spaces isWhitespace_def isLetter_def isDigit_def
      SINGLE_CHAR_TOKENS_def)

text \<open>
  C7. The empty string gives no token, and so does every string of spaces, tabs,
  newlines and carriage returns.
\<close>

theorem whitespace_only:
  "lexicalAnalysis [] = Some [] \<and>
   ((\<forall>c \<in> set s. c = CHR '' '' \<or> c = CHR 0x09 \<or> c = CHR 0x0A \<or> c = CHR 0x0D) \<longrightarrow>
      lexicalAnalysis s = Some [])"
proof (intro conjI impI)
  show "lexicalAnalysis [] = Some []"
    by (simp add: lexicalAnalysis_in_range)
next
  assume "\<forall>c \<in> set s. c = CHR '' '' \<or> c = CHR 0x09 \<or> c = CHR 0x0A \<or> c = CHR 0x0D"
  then have "list_all isWhitespace s"
    by (simp add: list_all_iff isWhitespace_def)
  then have "list_all isWhitespace (int_prefix s)"
    unfolding int_prefix_def list_all_iff using set_take_subset [of 2147483648 s] by blast
  then show "lexicalAnalysis s = Some []"
    by (simp add: lexicalAnalysis_tokens_of tokens_of_whitespace)
qed

theorem whitespace_only_witness:
  "lexicalAnalysis [CHR '' '', CHR '' '', CHR '' '', CHR 0x09, CHR 0x0A] = Some []"
  using whitespace_only [of "[CHR '' '', CHR '' '', CHR '' '', CHR 0x09, CHR 0x0A]"]
  by simp

text \<open>
  C9. With the cursor on \<open>=\<close>, \<open><\<close> or \<open>>\<close> as the last character of the input, the
  character after the cursor does not exist (a read there is \<open>None\<close>), the loop does not
  read it and returns: it pushes one token of that character, ASSIGNMENT_OPERATOR for
  \<open>=\<close> and DELIMITER for \<open><\<close> and \<open>>\<close>, moves the cursor by one and ends.
\<close>

theorem lookahead_at_end:
  "0 \<le> sint i \<and> nat (sint i) + 1 = length s \<and>
   (s ! nat (sint i) = CHR ''='' \<or> s ! nat (sint i) = CHR ''<'' \<or> s ! nat (sint i) = CHR ''>'') \<longrightarrow>
     at s (i + 1) = None \<and>
     lex_loop s i ts =
       Some (i + 1,
             ts @ [\<lparr>type = (if s ! nat (sint i) = CHR ''='' then ''ASSIGNMENT_OPERATOR'' else ''DELIMITER''),
                    value = [s ! nat (sint i)]\<rparr>])"
proof (intro impI)
  assume a: "0 \<le> sint i \<and> nat (sint i) + 1 = length s \<and>
   (s ! nat (sint i) = CHR ''='' \<or> s ! nat (sint i) = CHR ''<'' \<or> s ! nat (sint i) = CHR ''>'')"
  then have u: "nat (sint i) = unat i" by (simp add: sint_nonneg_unat)
  from a have i: "less_length i s" by (simp add: less_length_def)
  then have su: "unat (i + 1) = unat i + 1" by (simp add: less_length_unat unat_succ)
  from a have n: "\<not> less_length (i + 1) s"
    using su unfolding u by (simp add: less_length_unat)
  from a have sg: "s ! unat i \<in> SINGLE_CHAR_TOKENS"
    unfolding u by (auto simp: SINGLE_CHAR_TOKENS_def)
  from n have nl: "\<not> (isRelLead (s ! unat i) \<and> less_length (i + 1) s \<and> s ! unat (i + 1) = CHR ''='')"
    by simp
  have tk: "single_token (s ! unat i) =
      \<lparr>type = (if s ! unat i = CHR ''='' then ''ASSIGNMENT_OPERATOR'' else ''DELIMITER''),
        value = [s ! unat i]\<rparr>"
    using a unfolding u by (auto simp: single_token_def)
  have "lex_loop s i ts = lex_loop s (i + 1) (ts @ [single_token (s ! unat i)])"
    by (rule lex_loop_single [OF i sg nl])
  also have "\<dots> = Some (i + 1, ts @ [single_token (s ! unat i)])"
    by (rule lex_loop_end [OF n])
  finally have "lex_loop s i ts =
       Some (i + 1,
             ts @ [\<lparr>type = (if s ! unat i = CHR ''='' then ''ASSIGNMENT_OPERATOR'' else ''DELIMITER''),
                    value = [s ! unat i]\<rparr>])"
    by (simp only: tk)
  with at_not_less_length [OF n] show "at s (i + 1) = None \<and>
     lex_loop s i ts =
       Some (i + 1,
             ts @ [\<lparr>type = (if s ! nat (sint i) = CHR ''='' then ''ASSIGNMENT_OPERATOR'' else ''DELIMITER''),
                    value = [s ! nat (sint i)]\<rparr>])"
    unfolding u by simp
qed

theorem lookahead_at_end_witness:
  "lex_loop ''a<'' 1 [\<lparr>type = ''IDENTIFIER'', value = ''a''\<rparr>] =
     Some (2, [\<lparr>type = ''IDENTIFIER'', value = ''a''\<rparr>, \<lparr>type = ''DELIMITER'', value = ''<''\<rparr>])"
  using lookahead_at_end [of 1 "''a<''" "[\<lparr>type = ''IDENTIFIER'', value = ''a''\<rparr>]"]
  by simp

text \<open>
  C10, as the claim states it, fails: the lexeme of an INTEGER, KEYWORD or IDENTIFIER
  token is as long as its run; \<open>123\<close> gives one token with a lexeme of length three.
\<close>

theorem lexeme_lengths_counterexample:
  "lexicalAnalysis ''123'' = Some [\<lparr>type = ''INTEGER'', value = ''123''\<rparr>] \<and>
   length (value \<lparr>type = ''INTEGER'', value = ''123''\<rparr>) = 3"
  by code_simp

text \<open>
  C10, amended. There are at most as many tokens as characters in the input, and the
  lexemes together are no longer than the input. Every lexeme is non-empty. The lexeme of
  a RELATIONAL_OPERATOR token has length two; that of an ARITHMETIC_OPERATOR,
  ASSIGNMENT_OPERATOR, DELIMITER or ERROR token has length one; only KEYWORD, IDENTIFIER
  and INTEGER tokens have lexemes of other lengths.
\<close>

theorem lexeme_lengths:
  "\<exists>tokens. lexicalAnalysis s = Some tokens \<and>
     length tokens \<le> length s \<and>
     length (concat (map value tokens)) \<le> length s \<and>
     list_all (\<lambda>t. value t \<noteq> [] \<and>
        (type t \<in> {''KEYWORD'', ''IDENTIFIER'', ''INTEGER''} \<or>
         type t = ''RELATIONAL_OPERATOR'' \<and> length (value t) = 2 \<or>
         type t \<in> {''ARITHMETIC_OPERATOR'', ''ASSIGNMENT_OPERATOR'', ''DELIMITER'', ''ERROR''} \<and>
           length (value t) = 1)) tokens"
proof -
  have "length (concat (map value (tokens_of (int_prefix s)))) \<le> length (int_prefix s)"
    unfolding tokens_of_filter by simp
  then have c: "length (concat (map value (tokens_of (int_prefix s)))) \<le> length s"
    using length_prefix_le [of s] by simp
  then have "length (tokens_of (int_prefix s)) \<le> length s"
    using tokens_of_count [of "int_prefix s"] by simp
  moreover have "list_all (\<lambda>t. value t \<noteq> [] \<and>
        (type t \<in> {''KEYWORD'', ''IDENTIFIER'', ''INTEGER''} \<or>
         type t = ''RELATIONAL_OPERATOR'' \<and> length (value t) = 2 \<or>
         type t \<in> {''ARITHMETIC_OPERATOR'', ''ASSIGNMENT_OPERATOR'', ''DELIMITER'', ''ERROR''} \<and>
           length (value t) = 1)) (tokens_of (int_prefix s))"
    using tokens_of_shapes [of "int_prefix s"] shape_lengths unfolding list_all_iff by blast
  ultimately show ?thesis
    using c by (simp add: lexicalAnalysis_tokens_of)
qed

end
